theory Spec2Isabelle
  imports Main "HOL-Library.Sublist"
begin

section \<open>The affinity worker pool (spawn.py, class DistributedThreads)\<close>

text \<open>
  The exceptions the pool code can raise: the explicit \<open>ValueError\<close> of \<open>submit_id\<close>,
  the \<open>ZeroDivisionError\<close> of \<open>%\<close> in \<open>choose_worker\<close>, the \<open>IndexError\<close> of list
  indexing and of \<open>deque.popleft\<close> on an empty deque, and the \<open>TypeError\<close> of a call
  that gives one parameter two values.
\<close>

datatype error = ValueError | ZeroDivisionError | IndexError | TypeError

text \<open>
  The fields of a \<open>DistributedThreads\<close> object that \<open>submit_id\<close> reads or writes. A task
  \<open>(f, args, kwargs)\<close> is opaque (\<open>'t\<close>); a queue is the list of tasks put on it, oldest
  first; a watching deque is the list of its keys, oldest (leftmost) first. \<open>out_queue\<close>
  is an opaque handle. Python integers are unbounded, hence \<open>int\<close>.
\<close>

record ('k, 't, 'o) pool =
  out_queue :: "'o option"
  max_workers :: int
  max_watching :: int
  current_id :: int
  queue_list :: "'t list list"
  watching_list :: "'k list list"

text \<open>
  Python list indexing \<open>xs[i]\<close>: a negative index counts from the end, anything out of
  range raises \<open>IndexError\<close>. \<open>norm_index\<close> gives the position that is read.
\<close>

definition norm_index :: "'a list \<Rightarrow> int \<Rightarrow> error + nat" where
  "norm_index xs i =
     (let n = int (length xs); j = (if i < 0 then n + i else i)
      in if 0 \<le> j \<and> j < n then Inr (nat j) else Inl IndexError)"

text \<open>\<open>__init__\<close> and \<open>init_worker\<close>: one empty queue and one empty deque per worker.\<close>

definition init_pool :: "'o option \<Rightarrow> int \<Rightarrow> int \<Rightarrow> ('k, 't, 'o) pool" where
  "init_pool oq mw mwatch =
     \<lparr> out_queue = oq, max_workers = mw, max_watching = mwatch, current_id = 0,
       queue_list = replicate (nat mw) [],
       watching_list = replicate (nat mw) [] \<rparr>"

text \<open>
  \<open>iterate_queue(watching, key)\<close>: append the key when it is new and not \<open>None\<close>, then
  pop the leftmost key when the deque is longer than \<open>max_watching\<close>. \<open>popleft\<close> on an
  empty deque raises \<open>IndexError\<close>; that can only happen when nothing was appended, so
  the deque is unchanged in the error case.
\<close>

definition iterate_queue :: "int \<Rightarrow> 'k list \<Rightarrow> 'k option \<Rightarrow> error + 'k list" where
  "iterate_queue mwatch watching key =
     (let watching1 =
            (case key of
               Some k \<Rightarrow> if k \<notin> set watching then watching @ [k] else watching
             | None \<Rightarrow> watching)
      in if int (length watching1) > mwatch
         then (case watching1 of [] \<Rightarrow> Inl IndexError | _ # rest \<Rightarrow> Inr rest)
         else Inr watching1)"

text \<open>\<open>choose_worker\<close>: \<open>(current_id + 1) % max_workers\<close>; Python's \<open>%\<close> is floor
  modulo, as \<open>mod\<close> on \<open>int\<close> is, and raises on a zero divisor.\<close>

definition choose_worker :: "('k, 't, 'o) pool \<Rightarrow> error + int" where
  "choose_worker s =
     (if max_workers s = 0 then Inl ZeroDivisionError
      else Inr ((current_id s + 1) mod max_workers s))"

text \<open>
  The scan loop of \<open>submit_id\<close>, \<open>for i in range(max_workers)\<close>, with its loop-carried
  variable \<open>worker_id\<close>. On the first deque that holds the key the loop tests
  \<open>worker_id is not None\<close> (raise), and otherwise sets \<open>worker_id\<close> and breaks.
\<close>

fun scan_workers :: "'k \<Rightarrow> 'k list list \<Rightarrow> nat list \<Rightarrow> int option \<Rightarrow> error + int option" where
  "scan_workers key wl [] worker_id = Inr worker_id"
| "scan_workers key wl (i # is) worker_id =
     (case norm_index wl (int i) of
        Inl e \<Rightarrow> Inl e
      | Inr p \<Rightarrow>
          if key \<in> set (wl ! p)
          then (if worker_id \<noteq> None then Inl ValueError else Inr (Some (int i)))
          else scan_workers key wl is worker_id)"

text \<open>
  \<open>submit_id(key, f, *args, **kwargs)\<close>. The result is the exception raised, if any,
  and the pool as the call leaves it (an exception keeps the writes made before it).
\<close>

definition submit_id ::
  "'k option \<Rightarrow> 't \<Rightarrow> ('k, 't, 'o) pool \<Rightarrow> error option \<times> ('k, 't, 'o) pool" where
  "submit_id key task s =
     (case (case key of
              None \<Rightarrow> Inr None
            | Some k \<Rightarrow> scan_workers k (watching_list s) [0 ..< nat (max_workers s)] None) of
        Inl e \<Rightarrow> (Some e, s)
      | Inr found \<Rightarrow>
          (case (case found of Some w \<Rightarrow> Inr w | None \<Rightarrow> choose_worker s) of
             Inl e \<Rightarrow> (Some e, s)
           | Inr worker_id \<Rightarrow>
               (let s1 = s\<lparr>current_id := worker_id\<rparr> in
                case norm_index (queue_list s1) worker_id of
                  Inl e \<Rightarrow> (Some e, s1)
                | Inr qi \<Rightarrow>
                    (case norm_index (watching_list s1) worker_id of
                       Inl e \<Rightarrow> (Some e, s1)
                     | Inr wi \<Rightarrow>
                         (case iterate_queue (max_watching s1) (watching_list s1 ! wi) key of
                            Inl e \<Rightarrow> (Some e, s1)
                          | Inr watching' \<Rightarrow>
                              (None,
                               s1\<lparr>watching_list := (watching_list s1)[wi := watching'],
                                  queue_list :=
                                    (queue_list s1)[qi := queue_list s1 ! qi @ [task]]\<rparr>))))))"

text \<open>
  \<open>submit(f, *args, **kwargs)\<close> returns \<open>self.submit_id(None, f, *args, **kwargs)\<close>. Here
  the task is not opaque: \<open>args\<close> is the tuple of the positional arguments and \<open>kwargs\<close>
  the dict of the named ones, as the list of its items. The parameters of \<open>submit_id\<close>
  are \<open>(self, key, f, *args, **kwargs)\<close>, so when \<open>kwargs\<close> has an item named \<open>key\<close> the
  call gives \<open>key\<close> two values, \<open>None\<close> and that item, and raises \<open>TypeError\<close> before the
  body of \<open>submit_id\<close> runs: the pool is unchanged. No other name can collide, \<open>self\<close>
  and \<open>f\<close> being parameters of \<open>submit\<close> itself. Otherwise the body runs with the key
  \<open>None\<close> and puts the tuple \<open>(f, args, kwargs)\<close> on the queue.
\<close>

definition submit ::
  "'f \<Rightarrow> 'a list \<Rightarrow> (string \<times> 'a) list \<Rightarrow>
   ('k, 'f \<times> 'a list \<times> (string \<times> 'a) list, 'o) pool \<Rightarrow>
   error option \<times> ('k, 'f \<times> 'a list \<times> (string \<times> 'a) list, 'o) pool" where
  "submit f args kwargs s =
     (if ''key'' \<in> set (map fst kwargs) then (Some TypeError, s)
      else submit_id None (f, args, kwargs) s)"

text \<open>
  A sequence of calls on one pool, each a key (or \<open>None\<close> for \<open>submit\<close>) and a task. A
  caller that catches an exception goes on with the pool as the failed call left it. A
  \<open>submit\<close> call that raises \<open>TypeError\<close> leaves the pool as it was and has no place
  in the sequence.
\<close>

fun run_calls :: "('k option \<times> 't) list \<Rightarrow> ('k, 't, 'o) pool \<Rightarrow> ('k, 't, 'o) pool" where
  "run_calls [] s = s"
| "run_calls ((key, task) # cs) s = run_calls cs (snd (submit_id key task s))"


text \<open>
  \<open>iterate_queue\<close> called once per key on one deque, as \<open>submit_id\<close> does for the keys
  it routes to one worker; an exception ends the sequence.
\<close>

fun iterate_all :: "int \<Rightarrow> 'k list \<Rightarrow> 'k list \<Rightarrow> error + 'k list" where
  "iterate_all mwatch watching [] = Inr watching"
| "iterate_all mwatch watching (k # ks) =
     (case iterate_queue mwatch watching (Some k) of
        Inl e \<Rightarrow> Inl e
      | Inr watching' \<Rightarrow> iterate_all mwatch watching' ks)"

subsection \<open>Vocabulary of the properties\<close>

text \<open>
  A pool is well formed when it has at least one worker and one queue and one deque per
  worker, as \<open>init_worker\<close> builds them for \<open>max_workers \<ge> 1\<close>.
\<close>

definition wf_pool :: "('k, 't, 'o) pool \<Rightarrow> bool" where
  "wf_pool s \<longleftrightarrow>
     1 \<le> max_workers s \<and>
     length (queue_list s) = nat (max_workers s) \<and>
     length (watching_list s) = nat (max_workers s)"

text \<open>The first worker whose deque holds the key, if any: what the scan loop finds.\<close>

definition holder :: "'k \<Rightarrow> 'k list list \<Rightarrow> nat option" where
  "holder k wl = find (\<lambda>i. k \<in> set (wl ! i)) [0 ..< length wl]"

text \<open>The worker a call is routed to in a well-formed pool.\<close>

definition route :: "('k, 't, 'o) pool \<Rightarrow> 'k option \<Rightarrow> nat" where
  "route s key =
     (case (case key of None \<Rightarrow> None | Some k \<Rightarrow> holder k (watching_list s)) of
        Some i \<Rightarrow> i
      | None \<Rightarrow> nat ((current_id s + 1) mod max_workers s))"

text \<open>A key is in at most one worker's deque.\<close>

definition keys_exclusive :: "'k list list \<Rightarrow> bool" where
  "keys_exclusive wl \<longleftrightarrow>
     (\<forall>i < length wl. \<forall>j < length wl. \<forall>k.
        k \<in> set (wl ! i) \<and> k \<in> set (wl ! j) \<longrightarrow> i = j)"

text \<open>Every deque holds at most \<open>max_watching\<close> keys.\<close>

definition within_capacity :: "('k, 't, 'o) pool \<Rightarrow> bool" where
  "within_capacity s \<longleftrightarrow> (\<forall>w \<in> set (watching_list s). int (length w) \<le> max_watching s)"

text \<open>The key is in some worker's deque.\<close>

definition resident :: "'k \<Rightarrow> ('k, 't, 'o) pool \<Rightarrow> bool" where
  "resident k s \<longleftrightarrow> k \<in> set (concat (watching_list s))"

text \<open>
  The invariant of the pools that the public calls reach: well formed, a capacity that
  is not negative, no key twice in the deques taken together, every deque within capacity.
\<close>

definition pool_inv :: "('k, 't, 'o) pool \<Rightarrow> bool" where
  "pool_inv s \<longleftrightarrow>
     wf_pool s \<and> 0 \<le> max_watching s \<and> distinct (concat (watching_list s)) \<and>
     within_capacity s"

section \<open>The worker loop (spawn.py, AsyncThread.run)\<close>

text \<open>
  One worker thread: \<open>queue\<close> is the tasks its \<open>Queue\<close> delivers, in order;
  \<open>unfinished_tasks\<close> is the \<open>Queue\<close>'s count of items put and not yet marked done;
  \<open>out_queue_thread\<close> is the thread's \<open>out_queue\<close>, \<open>None\<close> or the results put so far.
\<close>

record ('t, 'r) async_thread =
  queue :: "'t list"
  unfinished_tasks :: nat
  out_queue_thread :: "'r list option"

text \<open>
  How the thread's \<open>run\<close> ends: it never returns. It blocks in \<open>queue.get()\<close> once
  the queue is empty, or an exception leaves the \<open>while\<close> loop and ends the thread:
  one raised by the task, or the \<open>ValueError\<close> of a \<open>task_done()\<close> too many.
\<close>

datatype 'e thread_end = Blocked_in_get | Task_raised 'e | Task_done_ValueError

text \<open>
  \<open>run\<close>, with \<open>call t\<close> the outcome of \<open>f(*args, **kwargs)\<close> for the task \<open>t\<close>: the
  exception it raises or the value it returns. \<open>input_function\<close> and \<open>output_function\<close>
  are \<open>pass\<close>. There is no \<open>try\<close> in the loop.
\<close>

function run ::
  "('t \<Rightarrow> 'e + 'r) \<Rightarrow> ('t, 'r) async_thread \<Rightarrow> 'e thread_end \<times> ('t, 'r) async_thread" where
  "run call th =
     (case queue th of
        [] \<Rightarrow> (Blocked_in_get, th)
      | t # rest \<Rightarrow>
          (let th1 = th\<lparr>queue := rest\<rparr> in
           case call t of
             Inl e \<Rightarrow> (Task_raised e, th1)
           | Inr result \<Rightarrow>
               (let th2 = (case out_queue_thread th1 of
                             None \<Rightarrow> th1
                           | Some out \<Rightarrow> th1\<lparr>out_queue_thread := Some (out @ [result])\<rparr>)
                in if unfinished_tasks th2 = 0 then (Task_done_ValueError, th2)
                   else run call (th2\<lparr>unfinished_tasks := unfinished_tasks th2 - 1\<rparr>))))"
  by pat_completeness auto
termination
  by (relation "measure (\<lambda>(call, th). length (queue th))")
     (auto split: option.splits)

section \<open>The sync-to-async bridge (spawn.py, class AsyncToSync)\<close>

text \<open>An event loop object, by identity.\<close>

type_synonym loop = nat

text \<open>
  The exceptions of the bridge: the \<open>RuntimeError\<close> of the reentrancy guard, the
  \<open>InvalidStateError\<close> of setting a \<open>Future\<close> that is already set, and what the wrapped
  awaitable raises, which is an instance of \<open>Exception\<close> or only of \<open>BaseException\<close>
  (\<open>KeyboardInterrupt\<close>, \<open>SystemExit\<close>, \<open>GeneratorExit\<close>).
\<close>

datatype 'x exc =
    RuntimeError_same_thread
  | InvalidStateError
  | Exception 'x
  | BaseException 'x

fun is_Exception :: "'x exc \<Rightarrow> bool" where
  "is_Exception (BaseException x) = False"
| "is_Exception e = True"

text \<open>A \<open>concurrent.futures.Future\<close>: pending, or finished with an exception or a result.\<close>

datatype ('x, 'v) future = Pending | Finished "'x exc + 'v"

definition set_result :: "('x, 'v) future \<Rightarrow> 'v \<Rightarrow> 'x exc + ('x, 'v) future" where
  "set_result fut v =
     (case fut of Pending \<Rightarrow> Inr (Finished (Inr v)) | Finished r \<Rightarrow> Inl InvalidStateError)"

definition set_exception :: "('x, 'v) future \<Rightarrow> 'x exc \<Rightarrow> 'x exc + ('x, 'v) future" where
  "set_exception fut e =
     (case fut of Pending \<Rightarrow> Inr (Finished (Inl e)) | Finished r \<Rightarrow> Inl InvalidStateError)"

text \<open>
  \<open>Future.result()\<close> without a timeout: the result, the exception (raised in the
  caller), or \<open>None\<close> when the future is never set and the caller blocks for ever.
\<close>

definition future_result :: "('x, 'v) future \<Rightarrow> ('x exc + 'v) option" where
  "future_result fut = (case fut of Pending \<Rightarrow> None | Finished r \<Rightarrow> Some r)"

text \<open>
  An \<open>AsyncToSync\<close> object. \<open>awaitable x\<close> is the outcome of awaiting
  \<open>self.awaitable(*args, **kwargs)\<close> on the arguments \<open>x\<close>.
\<close>

record ('a, 'x, 'v) async_to_sync =
  awaitable :: "'a \<Rightarrow> 'x exc + 'v"
  uvloop :: bool
  main_event_loop :: "loop option"

text \<open>
  What the calling thread sees of asyncio: \<open>thread_loop\<close> is what
  \<open>asyncio.get_event_loop()\<close> returns there (\<open>None\<close>: it raises \<open>RuntimeError\<close>),
  \<open>running\<close> every loop whose \<open>is_running()\<close> is true, \<open>has_shutdown_asyncgens\<close> the
  \<open>hasattr\<close> test on a new loop.
\<close>

record env =
  thread_loop :: "loop option"
  running :: "loop list"
  has_shutdown_asyncgens :: bool

text \<open>What a call does besides computing, in order.\<close>

datatype effect =
    Create_Future
  | New_event_loop bool
  | Set_event_loop_private
  | Run_until_complete_main_wrap
  | Run_until_complete_shutdown_asyncgens
  | Close_private_loop
  | Set_event_loop_main "loop option"
  | Call_soon_threadsafe_create_task loop
  | Wait_for_result

text \<open>
  \<open>main_wrap(args, kwargs, call_result)\<close>: \<open>except Exception\<close> stores the exception in
  the future, the \<open>else\<close> branch stores the result; anything else the awaitable raises
  leaves the coroutine. The result is the exception that leaves it, if any, and the future.
\<close>

definition main_wrap ::
  "('a, 'x, 'v) async_to_sync \<Rightarrow> 'a \<Rightarrow> ('x, 'v) future \<Rightarrow> 'x exc option \<times> ('x, 'v) future" where
  "main_wrap self x call_result =
     (case awaitable self x of
        Inl e \<Rightarrow>
          if is_Exception e
          then (case set_exception call_result e of
                  Inl e' \<Rightarrow> (Some e', call_result)
                | Inr fut \<Rightarrow> (None, fut))
          else (Some e, call_result)
      | Inr result \<Rightarrow>
          (case set_result call_result result of
             Inl e' \<Rightarrow> (Some e', call_result)
           | Inr fut \<Rightarrow> (None, fut)))"

text \<open>
  What \<open>__call__\<close> leaves behind: \<open>outcome\<close> is the value returned or the exception
  raised, \<open>None\<close> when the caller blocks for ever; \<open>trace\<close> the effects in order;
  \<open>cell\<close> the \<open>Future\<close> of this call, if one was created.
\<close>

record ('x, 'v) call_end =
  outcome :: "('x exc + 'v) option"
  trace :: "effect list"
  cell :: "('x, 'v) future option"

text \<open>
  \<open>AsyncToSync.__call__(*args, **kwargs)\<close>. First the guard. Then, when the main loop
  is not running, a private loop runs \<open>main_wrap\<close> to completion in the calling thread
  (\<open>run_until_complete\<close> raises what leaves the coroutine, after the \<open>finally\<close> blocks);
  otherwise \<open>main_wrap\<close> is handed to the main loop, which runs it as a task of its own
  (what leaves the coroutine stays in that task). Last, \<open>call_result.result()\<close>.
\<close>

definition AsyncToSync_call ::
  "('a, 'x, 'v) async_to_sync \<Rightarrow> env \<Rightarrow> 'a \<Rightarrow> ('x, 'v) call_end" where
  "AsyncToSync_call self ev x =
     (if (case thread_loop ev of None \<Rightarrow> False | Some event_loop \<Rightarrow> event_loop \<in> set (running ev))
      then \<lparr> outcome = Some (Inl RuntimeError_same_thread), trace = [], cell = None \<rparr>
      else
        (let call_result = Pending in
         if \<not> (case main_event_loop self of None \<Rightarrow> False | Some l \<Rightarrow> l \<in> set (running ev))
         then
           (let (escaped, fut) = main_wrap self x call_result;
                effects =
                  [Create_Future, New_event_loop (uvloop self), Set_event_loop_private,
                   Run_until_complete_main_wrap]
                  @ (if has_shutdown_asyncgens ev then [Run_until_complete_shutdown_asyncgens] else [])
                  @ [Close_private_loop, Set_event_loop_main (main_event_loop self)]
            in case escaped of
                 Some e \<Rightarrow> \<lparr> outcome = Some (Inl e), trace = effects, cell = Some fut \<rparr>
               | None \<Rightarrow>
                   \<lparr> outcome = future_result fut, trace = effects @ [Wait_for_result],
                     cell = Some fut \<rparr>)
         else
           (let (escaped, fut) = main_wrap self x call_result
            in \<lparr> outcome = future_result fut,
                 trace = [Create_Future,
                          Call_soon_threadsafe_create_task (the (main_event_loop self)),
                          Wait_for_result],
                 cell = Some fut \<rparr>)))"

section \<open>Properties of the pool\<close>

subsection \<open>What one call does\<close>

lemma norm_index_nat: "i < length xs \<Longrightarrow> norm_index xs (int i) = Inr i"
  by (simp add: norm_index_def)

lemma norm_index_lt: "norm_index xs i = Inr p \<Longrightarrow> p < length xs"
  by (auto simp: norm_index_def Let_def split: if_splits)

lemma norm_index_error: "norm_index xs i = Inl e \<Longrightarrow> e = IndexError"
  by (auto simp: norm_index_def Let_def split: if_splits)

lemma iterate_queue_error: "iterate_queue m w key = Inl e \<Longrightarrow> e = IndexError"
  by (auto simp: iterate_queue_def Let_def split: option.splits list.splits if_splits)

lemma choose_worker_error: "choose_worker s = Inl e \<Longrightarrow> e = ZeroDivisionError"
  by (auto simp: choose_worker_def split: if_splits)

text \<open>The scan started with \<open>worker_id = None\<close> returns the first holder of the key.\<close>

lemma scan_workers_find:
  "\<forall>i \<in> set is. i < length wl \<Longrightarrow>
   scan_workers k wl is None = Inr (map_option int (find (\<lambda>i. k \<in> set (wl ! i)) is))"
  by (induction "is") (simp_all add: norm_index_nat)

text \<open>The \<open>raise\<close> of the scan is behind the \<open>break\<close>: no scan ever reaches it.\<close>

lemma scan_workers_not_ValueError: "scan_workers k wl is None \<noteq> Inl ValueError"
  by (induction "is") (auto simp: norm_index_def Let_def split: sum.splits)

lemma holder_lt: "holder k wl = Some i \<Longrightarrow> i < length wl"
  by (auto simp: holder_def find_Some_iff)

lemma holder_mem: "holder k wl = Some i \<Longrightarrow> k \<in> set (wl ! i)"
  by (auto simp: holder_def find_Some_iff)

lemma holder_None:
  assumes "holder k wl = None"
  shows "k \<notin> set (concat wl)"
proof
  assume "k \<in> set (concat wl)"
  then obtain w where "w \<in> set wl" "k \<in> set w" by auto
  then obtain i where "i < length wl" "wl ! i = w" by (auto simp: in_set_conv_nth)
  with assms \<open>k \<in> set w\<close> show False by (auto simp: holder_def find_None_iff)
qed

lemma holder_unique:
  assumes "i < length wl" "k \<in> set (wl ! i)" "\<forall>j < length wl. j \<noteq> i \<longrightarrow> k \<notin> set (wl ! j)"
  shows "holder k wl = Some i"
  unfolding holder_def find_Some_iff using assms
  by (intro exI[of _ i]) auto

lemma route_lt: "wf_pool s \<Longrightarrow> route s key < nat (max_workers s)"
  by (auto simp: route_def wf_pool_def split: option.splits dest!: holder_lt)

text \<open>The three ways a call can end, in any pool at all.\<close>

lemma submit_id_cases:
  "(\<exists>e. submit_id key t s = (Some e, s) \<and> e \<noteq> ValueError) \<or>
   (\<exists>e w. submit_id key t s = (Some e, s\<lparr>current_id := w\<rparr>) \<and> e \<noteq> ValueError) \<or>
   (\<exists>w qi wi w'. norm_index (queue_list s) w = Inr qi \<and> norm_index (watching_list s) w = Inr wi \<and>
        iterate_queue (max_watching s) (watching_list s ! wi) key = Inr w' \<and>
        submit_id key t s =
          (None, s\<lparr>current_id := w, watching_list := (watching_list s)[wi := w'],
                   queue_list := (queue_list s)[qi := queue_list s ! qi @ [t]]\<rparr>))"
proof -
  let ?scan = "case key of None \<Rightarrow> Inr None
      | Some k \<Rightarrow> scan_workers k (watching_list s) [0 ..< nat (max_workers s)] None"
  show ?thesis
  proof (cases ?scan)
    case (Inl e)
    then have "e \<noteq> ValueError"
      by (auto split: option.splits simp: scan_workers_not_ValueError)
    then show ?thesis using Inl by (simp add: submit_id_def)
  next
    case scan: (Inr found)
    let ?ch = "case found of Some w \<Rightarrow> Inr w | None \<Rightarrow> choose_worker s"
    show ?thesis
    proof (cases ?ch)
      case (Inl e)
      then have "e \<noteq> ValueError"
        by (auto split: option.splits dest: choose_worker_error)
      then show ?thesis using scan Inl by (simp add: submit_id_def)
    next
      case ch: (Inr w)
      show ?thesis
      proof (cases "norm_index (queue_list s) w")
        case (Inl e)
        then show ?thesis using scan ch norm_index_error[OF Inl]
          by (auto simp: submit_id_def Let_def)
      next
        case q: (Inr qi)
        show ?thesis
        proof (cases "norm_index (watching_list s) w")
          case (Inl e)
          then show ?thesis using scan ch q norm_index_error[OF Inl]
            by (auto simp: submit_id_def Let_def)
        next
          case wa: (Inr wi)
          show ?thesis
          proof (cases "iterate_queue (max_watching s) (watching_list s ! wi) key")
            case (Inl e)
            then show ?thesis using scan ch q wa iterate_queue_error[OF Inl]
              by (auto simp: submit_id_def Let_def)
          next
            case (Inr w')
            then show ?thesis using scan ch q wa
              by (auto simp: submit_id_def Let_def)
          qed
        qed
      qed
    qed
  qed
qed

text \<open>No call raises the \<open>ValueError\<close> of \<open>submit_id\<close>, whatever the pool holds.\<close>

lemma submit_id_never_ValueError: "fst (submit_id key t s) \<noteq> Some ValueError"
  using submit_id_cases[of key t s] by auto

text \<open>A call in a well-formed pool: the routing, then \<open>iterate_queue\<close>, then the put.\<close>

lemma submit_id_wf:
  assumes "wf_pool s"
  shows "submit_id key t s =
     (let w = route s key in
      case iterate_queue (max_watching s) (watching_list s ! w) key of
        Inl e \<Rightarrow> (Some e, s\<lparr>current_id := int w\<rparr>)
      | Inr w' \<Rightarrow>
          (None, s\<lparr>current_id := int w,
                   watching_list := (watching_list s)[w := w'],
                   queue_list := (queue_list s)[w := queue_list s ! w @ [t]]\<rparr>))"
proof -
  let ?n = "nat (max_workers s)"
  have len: "length (watching_list s) = ?n" "length (queue_list s) = ?n" "1 \<le> max_workers s"
    using assms by (simp_all add: wf_pool_def)
  have lt: "route s key < ?n" using assms by (rule route_lt)
  have scan: "\<And>k. scan_workers k (watching_list s) [0 ..< ?n] None
      = Inr (map_option int (holder k (watching_list s)))"
    using scan_workers_find[of "[0 ..< ?n]" "watching_list s"] len by (simp add: holder_def)
  have ni: "norm_index (queue_list s) (int (route s key)) = Inr (route s key)"
       "norm_index (watching_list s) (int (route s key)) = Inr (route s key)"
    using lt len by (simp_all add: norm_index_nat)
  have ch: "choose_worker s = Inr (int (nat ((current_id s + 1) mod max_workers s)))"
    using len by (simp add: choose_worker_def)
  show ?thesis
  proof (cases key)
    case None
    then show ?thesis using ch ni
      by (simp add: submit_id_def route_def Let_def split: sum.splits)
  next
    case (Some k)
    show ?thesis
    proof (cases "holder k (watching_list s)")
      case None
      then show ?thesis using Some ch ni scan
        by (simp add: submit_id_def route_def Let_def split: sum.splits)
    next
      case (Some i)
      then show ?thesis using \<open>key = Some k\<close> ni scan
        by (simp add: submit_id_def route_def Let_def split: sum.splits)
    qed
  qed
qed

lemma iterate_queue_resident:
  "k \<in> set w \<Longrightarrow> iterate_queue m w (Some k) = Inr (if int (length w) > m then tl w else w)"
  by (cases w) (auto simp: iterate_queue_def)

lemma iterate_queue_None:
  "iterate_queue m w None =
     (if int (length w) > m then (case w of [] \<Rightarrow> Inl IndexError | _ # r \<Rightarrow> Inr r) else Inr w)"
  by (simp add: iterate_queue_def)

lemma iterate_queue_None_suffix: "iterate_queue m w None = Inr w' \<Longrightarrow> suffix w' w"
  by (auto simp: iterate_queue_None suffix_def split: if_splits list.splits)

lemma suffix_list_update:
  "suffix y (xs ! i) \<Longrightarrow> j < length xs \<Longrightarrow> suffix (xs[i := y] ! j) (xs ! j)"
  by (cases "i = j") auto

subsection \<open>A key held by two workers\<close>

text \<open>
  Claim C1 says that \<open>submit_id\<close> with a key that is in more than one worker's deque
  fails with the \<open>ValueError\<close> "Key belong to more than one worker". The code does not:
  with the key \<open>1\<close> in the deques of both workers of a pool of two, the call raises
  nothing, takes worker \<open>0\<close>, the first holder, and puts the task on its queue. The scan
  breaks at the first holder, so its test \<open>worker_id is not None\<close> only ever sees \<open>None\<close>
  (lemmas \<open>scan_workers_not_ValueError\<close> and \<open>submit_id_never_ValueError\<close>).
\<close>

theorem submit_id_key_in_two_workers:
  "submit_id (Some (1::nat)) ''f''
     \<lparr>out_queue = (None::unit option), max_workers = 2, max_watching = 100, current_id = 1,
      queue_list = [[], []], watching_list = [[1], [1]]\<rparr>
   = (None,
      \<lparr>out_queue = None, max_workers = 2, max_watching = 100, current_id = 0,
       queue_list = [[''f''], []], watching_list = [[1], [1]]\<rparr>)"
  by (simp add: submit_id_def norm_index_def iterate_queue_def upt_rec)

subsection \<open>A key held by exactly one worker\<close>

text \<open>
  Claim C2, as amended: in every well-formed pool, \<open>submit_id\<close> with a key that is in the
  deque of exactly one worker \<open>i\<close> raises nothing, puts the task at the end of worker
  \<open>i\<close>'s queue and sets \<open>current_id\<close> to \<open>i\<close>. \<open>out_queue\<close>, \<open>max_workers\<close>,
  \<open>max_watching\<close>, the other queues and the other deques are unchanged; the deque of
  worker \<open>i\<close> is unchanged when it holds at most \<open>max_watching\<close> keys and loses its
  oldest key otherwise.
\<close>

theorem resident_key_routes:
  assumes "wf_pool s"
    and "i < length (watching_list s)"
    and "k \<in> set (watching_list s ! i)"
    and "\<forall>j < length (watching_list s). j \<noteq> i \<longrightarrow> k \<notin> set (watching_list s ! j)"
  shows "submit_id (Some k) t s =
     (None, s\<lparr>current_id := int i,
              watching_list := (watching_list s)[i :=
                 (if int (length (watching_list s ! i)) > max_watching s
                  then tl (watching_list s ! i) else watching_list s ! i)],
              queue_list := (queue_list s)[i := queue_list s ! i @ [t]]\<rparr>)"
proof -
  have r: "route s (Some k) = i"
    using holder_unique[OF assms(2,3,4)] by (simp add: route_def)
  show ?thesis
    using assms(3) by (simp add: submit_id_wf[OF assms(1)] r iterate_queue_resident)
qed

text \<open>The amended claim at a pool of two workers with the key \<open>1\<close> held by worker \<open>1\<close>.\<close>

theorem resident_key_routes_witness:
  "wf_pool \<lparr>out_queue = (None::unit option), max_workers = 2, max_watching = 100,
      current_id = 0, queue_list = [[], []::string list], watching_list = [[], [1::nat]]\<rparr>
   \<and> submit_id (Some (1::nat)) ''f''
     \<lparr>out_queue = (None::unit option), max_workers = 2, max_watching = 100, current_id = 0,
      queue_list = [[], []], watching_list = [[], [1]]\<rparr>
   = (None,
      \<lparr>out_queue = None, max_workers = 2, max_watching = 100, current_id = 1,
       queue_list = [[], [''f'']], watching_list = [[], [1]]\<rparr>)"
  using resident_key_routes[of
     "\<lparr>out_queue = (None::unit option), max_workers = 2, max_watching = 100, current_id = 0,
      queue_list = [[], []], watching_list = [[], [1::nat]]\<rparr>" 1 1 "''f''"]
  by (simp add: wf_pool_def less_Suc_eq)

text \<open>
  Claim C2 as it was stated fails twice. The cursor does not stay: with \<open>current_id = 0\<close>
  and the key held by worker \<open>1\<close>, the call leaves \<open>current_id = 1\<close>. And the deque of
  the worker can change: holding two keys with \<open>max_watching = 1\<close>, it loses its oldest.
\<close>

theorem resident_key_cursor_counterexample:
  "submit_id (Some (1::nat)) ''f''
     \<lparr>out_queue = (None::unit option), max_workers = 2, max_watching = 100, current_id = 0,
      queue_list = [[], []], watching_list = [[], [1]]\<rparr>
   = (None,
      \<lparr>out_queue = None, max_workers = 2, max_watching = 100, current_id = 1,
       queue_list = [[], [''f'']], watching_list = [[], [1]]\<rparr>)
   \<and> submit_id (Some (1::nat)) ''f''
     \<lparr>out_queue = (None::unit option), max_workers = 2, max_watching = 1, current_id = 1,
      queue_list = [[], []], watching_list = [[], [2, 1]]\<rparr>
   = (None,
      \<lparr>out_queue = None, max_workers = 2, max_watching = 1, current_id = 1,
       queue_list = [[], [''f'']], watching_list = [[], [1]]\<rparr>)"
  by (simp add: submit_id_def norm_index_def iterate_queue_def upt_rec)

subsection \<open>Calls without a key\<close>

text \<open>
  Claim C10, as amended: in every well-formed pool in which the deque of the worker at
  \<open>(current_id + 1) mod max_workers\<close> holds at most \<open>max_watching\<close> keys, a \<open>submit\<close>
  call whose task has no named argument called \<open>key\<close> raises nothing, leaves every
  deque unchanged, moves \<open>current_id\<close> to that worker and puts the task at the end of
  that worker's queue. In every pool whatever and for every task, \<open>submit\<close> inserts no
  key: there are as many deques after the call as before, and each is a suffix of what
  it was.
\<close>

theorem submit_keeps_watching:
  "(wf_pool s \<and>
    int (length (watching_list s ! nat ((current_id s + 1) mod max_workers s))) \<le> max_watching s \<and>
    ''key'' \<notin> set (map fst kwargs)
    \<longrightarrow> submit f args kwargs s =
        (None, s\<lparr>current_id := (current_id s + 1) mod max_workers s,
                 queue_list := (queue_list s)[nat ((current_id s + 1) mod max_workers s) :=
                    queue_list s ! nat ((current_id s + 1) mod max_workers s)
                      @ [(f, args, kwargs)]]\<rparr>))
   \<and> length (watching_list (snd (submit f args kwargs s))) = length (watching_list s)
   \<and> (\<forall>j < length (watching_list s).
        suffix (watching_list (snd (submit f args kwargs s)) ! j) (watching_list s ! j))"
proof (intro conjI impI)
  assume a: "wf_pool s \<and>
    int (length (watching_list s ! nat ((current_id s + 1) mod max_workers s))) \<le> max_watching s \<and>
    ''key'' \<notin> set (map fst kwargs)"
  then have "1 \<le> max_workers s" by (simp add: wf_pool_def)
  then have "0 \<le> (current_id s + 1) mod max_workers s" by simp
  then show "submit f args kwargs s =
        (None, s\<lparr>current_id := (current_id s + 1) mod max_workers s,
                 queue_list := (queue_list s)[nat ((current_id s + 1) mod max_workers s) :=
                    queue_list s ! nat ((current_id s + 1) mod max_workers s)
                      @ [(f, args, kwargs)]]\<rparr>)"
    using a by (simp add: submit_def submit_id_wf route_def iterate_queue_None Let_def)
next
  show "length (watching_list (snd (submit f args kwargs s))) = length (watching_list s)"
    using submit_id_cases[of None "(f, args, kwargs)" s] by (auto simp: submit_def)
next
  show "\<forall>j < length (watching_list s).
        suffix (watching_list (snd (submit f args kwargs s)) ! j) (watching_list s ! j)"
    using submit_id_cases[of None "(f, args, kwargs)" s]
    by (auto simp: submit_def dest!: iterate_queue_None_suffix intro: suffix_list_update)
qed

text \<open>
  The amended claim at a pool whose worker \<open>0\<close> holds two keys of two allowed, with a
  task that has a named argument \<open>reverse\<close>.
\<close>

theorem submit_keeps_watching_witness:
  "wf_pool \<lparr>out_queue = (None::unit option), max_workers = 2, max_watching = 2,
      current_id = 1,
      queue_list = [[], []::(string \<times> string list \<times> (string \<times> string) list) list],
      watching_list = [[1::nat, 2], []]\<rparr>
   \<and> submit ''sorted'' [''xs''] [(''reverse'', ''True'')]
     \<lparr>out_queue = (None::unit option), max_workers = 2, max_watching = 2, current_id = 1,
      queue_list = [[], []], watching_list = [[1::nat, 2], []]\<rparr>
   = (None,
      \<lparr>out_queue = None, max_workers = 2, max_watching = 2, current_id = 0,
       queue_list = [[(''sorted'', [''xs''], [(''reverse'', ''True'')])], []],
       watching_list = [[1, 2], []]\<rparr>)"
  using submit_keeps_watching[of
     "\<lparr>out_queue = (None::unit option), max_workers = 2, max_watching = 2, current_id = 1,
      queue_list = [[], []], watching_list = [[1::nat, 2], []]\<rparr>"
     "[(''reverse'', ''True'')]" "''sorted''" "[''xs'']"]
  by (simp add: wf_pool_def)

text \<open>
  Claim C10 as it was stated fails twice. In a pool whose chosen worker holds more keys
  than \<open>max_watching\<close>, the call without a key pops the oldest key of that worker. And a
  call whose task has a named argument \<open>key\<close> raises \<open>TypeError\<close>: the cursor stays and
  no queue grows.
\<close>

theorem submit_evicts_counterexample:
  "submit ''f'' [] []
     \<lparr>out_queue = (None::unit option), max_workers = 2, max_watching = 1, current_id = 1,
      queue_list = [[], []::(string \<times> string list \<times> (string \<times> string) list) list],
      watching_list = [[1::nat, 2], []]\<rparr>
   = (None,
      \<lparr>out_queue = None, max_workers = 2, max_watching = 1, current_id = 0,
       queue_list = [[(''f'', [], [])], []], watching_list = [[2], []]\<rparr>)
   \<and> submit ''sorted'' [''xs''] [(''key'', ''len'')]
     \<lparr>out_queue = (None::unit option), max_workers = 2, max_watching = 1, current_id = 1,
      queue_list = [[], []], watching_list = [[1::nat], []]\<rparr>
   = (Some TypeError,
      \<lparr>out_queue = None, max_workers = 2, max_watching = 1, current_id = 1,
       queue_list = [[], []], watching_list = [[1], []]\<rparr>)"
  by (simp add: submit_def submit_id_def norm_index_def iterate_queue_def choose_worker_def)

subsection \<open>The deques under one call\<close>

lemma concat_nth_split:
  "i < length wl \<Longrightarrow> concat wl = concat (take i wl) @ wl ! i @ concat (drop (Suc i) wl)"
  by (metis append_Cons append_Nil concat.simps(2) concat_append id_take_nth_drop)

lemma concat_update_split:
  "i < length wl \<Longrightarrow>
   concat (wl[i := w']) = concat (take i wl) @ w' @ concat (drop (Suc i) wl)"
  by (simp add: upd_conv_take_nth_drop)

lemma distinct_concat_update:
  assumes "distinct (concat wl)" "i < length wl" "distinct w'"
    and "\<forall>x \<in> set w'. x \<in> set (wl ! i) \<or> x \<notin> set (concat wl)"
  shows "distinct (concat (wl[i := w']))"
proof -
  let ?a = "concat (take i wl)" and ?b = "concat (drop (Suc i) wl)"
  have c: "concat wl = ?a @ wl ! i @ ?b" using assms(2) by (rule concat_nth_split)
  have d: "distinct (?a @ wl ! i @ ?b)" using assms(1) c by simp
  have s: "set (concat wl) = set ?a \<union> set (wl ! i) \<union> set ?b"
    using arg_cong[OF c, of set] by (simp add: Un_assoc)
  have disj: "set ?a \<inter> set (wl ! i) = {}" "set (wl ! i) \<inter> set ?b = {}" "set ?a \<inter> set ?b = {}"
    and da: "distinct ?a" and db: "distinct ?b"
    using d by auto
  have "x \<notin> set ?a \<and> x \<notin> set ?b" if "x \<in> set w'" for x
  proof (cases "x \<in> set (wl ! i)")
    case True
    then show ?thesis using disj by blast
  next
    case False
    then have "x \<notin> set (concat wl)" using assms(4) that by blast
    then show ?thesis unfolding s by blast
  qed
  then have "set ?a \<inter> set w' = {}" "set w' \<inter> set ?b = {}" by blast+
  then have "distinct (?a @ w' @ ?b)" using da db disj(3) assms(3) by (simp add: Int_Un_distrib)
  then show ?thesis using assms(2) by (simp add: concat_update_split)
qed

lemma distinct_concat_exclusive:
  assumes "distinct (concat wl)"
  shows "keys_exclusive wl"
proof -
  have "i = j" if "i < length wl" "j < length wl" "k \<in> set (wl ! i)" "k \<in> set (wl ! j)" "i \<le> j"
    for i j k
  proof (rule ccontr)
    assume "i \<noteq> j"
    then have "i < j" using that(5) by simp
    have c: "concat wl = concat (take i wl) @ wl ! i @ concat (drop (Suc i) wl)"
      using that(1) by (rule concat_nth_split)
    have "drop (Suc i) wl ! (j - Suc i) = wl ! j" "j - Suc i < length (drop (Suc i) wl)"
      using \<open>i < j\<close> that(2) by simp_all
    then have "wl ! j \<in> set (drop (Suc i) wl)" by (metis nth_mem)
    then have "k \<in> set (concat (drop (Suc i) wl))" using that(4) by auto
    moreover have "set (wl ! i) \<inter> set (concat (drop (Suc i) wl)) = {}"
      using assms unfolding c by auto
    ultimately show False using that(3) by blast
  qed
  then show ?thesis
    unfolding keys_exclusive_def by (metis nat_le_linear)
qed

lemma iterate_queue_new:
  "k \<notin> set w \<Longrightarrow>
   iterate_queue m w (Some k) = Inr (if int (length w) + 1 > m then tl (w @ [k]) else w @ [k])"
  by (cases w) (auto simp: iterate_queue_def)

lemma iterate_queue_distinct:
  "iterate_queue m w key = Inr w' \<Longrightarrow> distinct w \<Longrightarrow> distinct w'"
proof (cases key)
  case None
  assume "iterate_queue m w key = Inr w'" "distinct w"
  then show ?thesis using None
    by (auto simp: iterate_queue_None split: if_splits list.splits)
next
  case (Some k)
  assume a: "iterate_queue m w key = Inr w'" "distinct w"
  show ?thesis
  proof (cases "k \<in> set w")
    case True
    then show ?thesis using a Some
      by (auto simp: iterate_queue_resident distinct_tl split: if_splits)
  next
    case False
    then have "distinct (w @ [k])" using a(2) by simp
    then show ?thesis using a(1) Some False distinct_tl[of "w @ [k]"]
      by (auto simp: iterate_queue_new simp del: distinct_append split: if_splits)
  qed
qed

lemma iterate_queue_keys:
  assumes "iterate_queue m w key = Inr w'" "x \<in> set w'"
  shows "x \<in> set w \<or> key = Some x"
proof (cases key)
  case None
  then show ?thesis using assms
    by (auto simp: iterate_queue_None split: if_splits list.splits)
next
  case (Some k)
  show ?thesis
  proof (cases "k \<in> set w")
    case True
    then show ?thesis using assms Some
      by (auto simp: iterate_queue_resident split: if_splits dest: list.set_sel(2)[rotated])
  next
    case False
    have "x \<in> set (tl (w @ [k])) \<Longrightarrow> x \<in> set (w @ [k])"
      by (rule list.set_sel(2)[rotated]) simp_all
    then show ?thesis using assms Some False
      by (auto simp: iterate_queue_new split: if_splits)
  qed
qed

lemma iterate_queue_capacity:
  assumes "iterate_queue m w key = Inr w'" "int (length w) \<le> m"
  shows "int (length w') \<le> m"
proof (cases key)
  case None
  then show ?thesis using assms
    by (auto simp: iterate_queue_None split: if_splits list.splits)
next
  case (Some k)
  then show ?thesis using assms
    by (cases "k \<in> set w") (auto simp: iterate_queue_new iterate_queue_resident split: if_splits)
qed

lemma iterate_queue_total:
  assumes "0 \<le> m"
  shows "\<exists>w'. iterate_queue m w key = Inr w'"
proof (cases key)
  case None
  then show ?thesis using assms
    by (cases w) (auto simp: iterate_queue_None)
next
  case (Some k)
  then show ?thesis 
    by (cases "k \<in> set w") (auto simp: iterate_queue_new iterate_queue_resident)
qed

lemma route_new_key:
  assumes "iterate_queue m (wl ! route s (Some k)) (Some k) = Inr w'" "wl = watching_list s"
    and "x \<in> set w'"
  shows "x \<in> set (wl ! route s (Some k)) \<or> x \<notin> set (concat wl)"
proof (cases "holder k wl")
  case None
  then have "k \<notin> set (concat wl)" by (rule holder_None)
  then show ?thesis using iterate_queue_keys[OF assms(1,3)] by auto
next
  case (Some i)
  then have "route s (Some k) = i" "k \<in> set (wl ! i)"
    using assms(2) by (simp_all add: route_def holder_mem)
  then show ?thesis using iterate_queue_keys[OF assms(1,3)] by auto
qed

lemma submit_id_distinct_wf:
  assumes "wf_pool s" "distinct (concat (watching_list s))"
  shows "distinct (concat (watching_list (snd (submit_id key t s))))"
proof (cases "iterate_queue (max_watching s) (watching_list s ! route s key) key")
  case (Inl e)
  then show ?thesis using assms by (simp add: submit_id_wf Let_def)
next
  case (Inr w')
  let ?r = "route s key"
  have lt: "?r < length (watching_list s)"
    using route_lt[OF assms(1)] assms(1) by (simp add: wf_pool_def)
  have dw: "distinct (watching_list s ! ?r)"
    using assms(2) lt by (metis distinct_concat_iff nth_mem)
  have d': "distinct w'" using iterate_queue_distinct[OF Inr dw] .
  have keys: "\<forall>x \<in> set w'. x \<in> set (watching_list s ! ?r) \<or> x \<notin> set (concat (watching_list s))"
  proof (cases key)
    case None
    then show ?thesis using iterate_queue_keys[OF Inr] by auto
  next
    case (Some k)
    then show ?thesis using route_new_key[of "max_watching s" "watching_list s" s k w'] Inr
      by auto
  qed
  have "distinct (concat ((watching_list s)[?r := w']))"
    using distinct_concat_update[OF assms(2) lt d' keys] .
  then show ?thesis using Inr assms(1) by (simp add: submit_id_wf Let_def)
qed

lemma submit_id_capacity_wf:
  assumes "wf_pool s" "within_capacity s"
  shows "within_capacity (snd (submit_id key t s))"
proof (cases "iterate_queue (max_watching s) (watching_list s ! route s key) key")
  case (Inl e)
  then show ?thesis using assms by (simp add: submit_id_wf Let_def within_capacity_def)
next
  case (Inr w')
  let ?r = "route s key"
  have lt: "?r < length (watching_list s)"
    using route_lt[OF assms(1)] assms(1) by (simp add: wf_pool_def)
  then have "int (length (watching_list s ! ?r)) \<le> max_watching s"
    using assms(2) by (simp add: within_capacity_def)
  then have "int (length w') \<le> max_watching s"
    using iterate_queue_capacity[OF Inr] by simp
  moreover have "set ((watching_list s)[?r := w']) \<subseteq> insert w' (set (watching_list s))"
    by (rule set_update_subset_insert)
  ultimately have "\<forall>w \<in> set ((watching_list s)[?r := w']). int (length w) \<le> max_watching s"
    using assms(2) by (auto simp: within_capacity_def)
  then show ?thesis using Inr assms(1) by (simp add: submit_id_wf Let_def within_capacity_def)
qed

lemma submit_id_frame:
  "max_workers (snd (submit_id key t s)) = max_workers s \<and>
   max_watching (snd (submit_id key t s)) = max_watching s \<and>
   out_queue (snd (submit_id key t s)) = out_queue s \<and>
   length (queue_list (snd (submit_id key t s))) = length (queue_list s) \<and>
   length (watching_list (snd (submit_id key t s))) = length (watching_list s)"
  using submit_id_cases[of key t s] by auto

lemma submit_id_wf_pool: "wf_pool s \<Longrightarrow> wf_pool (snd (submit_id key t s))"
  using submit_id_frame[of key t s] by (simp add: wf_pool_def)

lemma submit_id_pool_inv: "pool_inv s \<Longrightarrow> pool_inv (snd (submit_id key t s))"
  using submit_id_frame[of key t s]
  by (simp add: pool_inv_def submit_id_wf_pool submit_id_distinct_wf submit_id_capacity_wf)

lemma submit_id_no_error: 
  assumes "pool_inv s" 
  shows "fst (submit_id key t s) = None"
proof -
  have "wf_pool s" "0 \<le> max_watching s" using assms by (simp_all add: pool_inv_def)
  then show ?thesis
    using iterate_queue_total[of "max_watching s" "watching_list s ! route s key" key]
    by (auto simp: submit_id_wf Let_def)
qed

lemma run_calls_pool_inv: "pool_inv s \<Longrightarrow> pool_inv (run_calls cs s)"
  by (induction cs arbitrary: s) (auto simp: submit_id_pool_inv)

lemma run_calls_empty_pool:
  "watching_list s = [] \<Longrightarrow> watching_list (run_calls cs s) = []"
proof (induction cs arbitrary: s)
  case Nil
  then show ?case by simp
next
  case (Cons c cs)
  obtain key t where c: "c = (key, t)" by (cases c)
  have "length (watching_list (snd (submit_id key t s))) = 0"
    using submit_id_frame[of key t s] Cons.prems by simp
  then show ?case using Cons.IH c by simp
qed

lemma run_calls_frame:
  "max_workers (run_calls cs s) = max_workers s \<and> max_watching (run_calls cs s) = max_watching s"
proof (induction cs arbitrary: s)
  case Nil
  then show ?case by simp
next
  case (Cons c cs)
  obtain key t where c: "c = (key, t)" by (cases c)
  show ?case using Cons.IH[of "snd (submit_id key t s)"] submit_id_frame[of key t s] c by simp
qed

lemma init_pool_inv: "1 \<le> n \<Longrightarrow> 0 \<le> m \<Longrightarrow> pool_inv (init_pool oq n m)"
  by (simp add: pool_inv_def wf_pool_def init_pool_def within_capacity_def)

lemma init_pool_distinct: "distinct (concat (watching_list (init_pool oq n m)))"
  by (simp add: init_pool_def)

lemma run_calls_distinct_wf:
  "wf_pool s \<Longrightarrow> distinct (concat (watching_list s)) \<Longrightarrow>
   distinct (concat (watching_list (run_calls cs s)))"
  by (induction cs arbitrary: s) (auto simp: submit_id_wf_pool submit_id_distinct_wf)

subsection \<open>The invariant of the reachable pools\<close>

text \<open>
  Claim C3: in the pool that any sequence of \<open>submit\<close> and \<open>submit_id\<close> calls leaves,
  starting from a fresh \<open>DistributedThreads\<close>, a key is in the deque of at most one
  worker, and, for a capacity \<open>max_watching \<ge> 0\<close>, every deque holds at most
  \<open>max_watching\<close> keys. The sequence is arbitrary, so this holds after each call.
\<close>

theorem reachable_invariant:
  "keys_exclusive (watching_list (run_calls cs (init_pool oq n m))) \<and>
   (0 \<le> m \<longrightarrow>
      (\<forall>w \<in> set (watching_list (run_calls cs (init_pool oq n m))). int (length w) \<le> m))"
proof (cases "1 \<le> n")
  case True
  let ?s = "init_pool oq n m"
  have "wf_pool ?s" using True by (simp add: wf_pool_def init_pool_def)
  then have "distinct (concat (watching_list (run_calls cs ?s)))"
    using init_pool_distinct by (rule run_calls_distinct_wf)
  then have ex: "keys_exclusive (watching_list (run_calls cs ?s))"
    by (rule distinct_concat_exclusive)
  have "\<forall>w \<in> set (watching_list (run_calls cs ?s)). int (length w) \<le> m" if "0 \<le> m"
  proof -
    have "pool_inv (run_calls cs ?s)"
      using init_pool_inv[OF True that] by (rule run_calls_pool_inv)
    then have "within_capacity (run_calls cs ?s)" by (simp add: pool_inv_def)
    moreover have "max_watching (run_calls cs ?s) = m"
      using run_calls_frame[of cs ?s] by (simp add: init_pool_def)
    ultimately show ?thesis by (simp add: within_capacity_def)
  qed
  then show ?thesis using ex by blast
next
  case False
  then have "watching_list (init_pool oq n m :: ('a, 'b, 'c) pool) = []"
    by (simp add: init_pool_def)
  then have "watching_list (run_calls cs (init_pool oq n m :: ('a, 'b, 'c) pool)) = []"
    by (rule run_calls_empty_pool)
  then show ?thesis by (simp add: keys_exclusive_def)
qed

text \<open>Claim C3 after six calls on a fresh pool of two workers with capacity one.\<close>

theorem reachable_invariant_witness:
  "(0::int) \<le> 1 \<and>
   keys_exclusive (watching_list (run_calls
      [(Some (1::nat), ''a''), (None, ''b''), (Some 2, ''c''), (Some 3, ''d''),
       (Some 1, ''e''), (Some 4, ''f'')] (init_pool (None::unit option) 2 1))) \<and>
   list_all (\<lambda>w. int (length w) \<le> 1) (watching_list (run_calls
      [(Some (1::nat), ''a''), (None, ''b''), (Some 2, ''c''), (Some 3, ''d''),
       (Some 1, ''e''), (Some 4, ''f'')] (init_pool (None::unit option) 2 1)))"
  using reachable_invariant[of
      "[(Some (1::nat), ''a''), (None, ''b''), (Some 2, ''c''), (Some 3, ''d''),
       (Some 1, ''e''), (Some 4, ''f'')]" "None::unit option" 2 1]
  by (simp add: list_all_iff)

subsection \<open>Eviction from a deque\<close>

lemma iterate_all_under_capacity:
  "distinct (w @ ks) \<Longrightarrow> int (length (w @ ks)) \<le> m \<Longrightarrow> iterate_all m w ks = Inr (w @ ks)"
proof (induction ks arbitrary: w)
  case Nil
  then show ?case by simp
next
  case (Cons k ks)
  have "k \<notin> set w" using Cons.prems(1) by simp
  then have "iterate_queue m w (Some k) = Inr (w @ [k])"
    using Cons.prems(2) by (simp add: iterate_queue_new)
  moreover have "iterate_all m (w @ [k]) ks = Inr ((w @ [k]) @ ks)"
    using Cons.prems by (intro Cons.IH) simp_all
  ultimately show ?case by simp
qed

lemma iterate_all_snoc:
  "iterate_all m w (ks @ [k]) =
     (case iterate_all m w ks of Inl e \<Rightarrow> Inl e | Inr w' \<Rightarrow> iterate_queue m w' (Some k))"
  by (induction ks arbitrary: w) (simp_all split: sum.splits)

lemma iterate_all_overflow:
  assumes "0 \<le> m" "distinct ks" "length ks = nat m + 1"
  shows "iterate_all m [] ks = Inr (tl ks)"
proof -
  have ne: "ks \<noteq> []" using assms(3) by auto
  then have ks: "ks = butlast ks @ [last ks]" by simp
  have d: "distinct (butlast ks)" "last ks \<notin> set (butlast ks)"
    using assms(2) ks by (metis distinct_butlast, metis distinct_append distinct.simps(2) disjoint_iff list.set_intros(1) ks)
  have len: "int (length (butlast ks)) = m" using assms(1,3) by simp
  have "iterate_all m [] (butlast ks) = Inr (butlast ks)"
    using iterate_all_under_capacity[of "[]" "butlast ks" m] d(1) len by simp
  then have "iterate_all m [] (butlast ks @ [last ks]) = Inr (tl (butlast ks @ [last ks]))"
    using d(2) len by (simp add: iterate_all_snoc iterate_queue_new)
  then show ?thesis using ks by simp
qed

lemma iterate_queue_evicts_head:
  assumes "iterate_queue m w key = Inr w'" "x \<in> set w" "x \<notin> set w'"
  shows "x = hd w"
proof -
  have tl: "\<And>ys. x \<in> set ys \<Longrightarrow> x \<notin> set (tl ys) \<Longrightarrow> x = hd ys"
    by (case_tac ys) auto
  show ?thesis
  proof (cases key)
    case None
    then show ?thesis using assms tl[of w]
      by (auto simp: iterate_queue_None split: if_splits list.splits)
  next
    case (Some k)
    show ?thesis
    proof (cases "k \<in> set w")
      case True
      then show ?thesis using assms Some tl[of w]
        by (auto simp: iterate_queue_resident split: if_splits)
    next
      case False
      have "w \<noteq> []" using assms(2) by auto
      then have "hd (w @ [k]) = hd w" by simp
      then show ?thesis using assms Some False tl[of "w @ [k]"]
        by (auto simp: iterate_queue_new split: if_splits)
    qed
  qed
qed

lemma single_worker_route: "wf_pool s \<Longrightarrow> max_workers s = 1 \<Longrightarrow> route s key = 0"
  using route_lt[of s key] by simp

lemma single_worker_run:
  assumes "wf_pool s" "max_workers s = 1" "iterate_all (max_watching s) (watching_list s ! 0) (map fst cs) = Inr w'"
  shows "watching_list (run_calls (map (\<lambda>(k, t). (Some k, t)) cs) s) = [w']"
  using assms
proof (induction cs arbitrary: s)
  case Nil
  then have "length (watching_list s) = 1" by (simp add: wf_pool_def)
  then show ?case using Nil by (cases "watching_list s") auto
next
  case (Cons c cs)
  obtain k t where c: "c = (k, t)" by (cases c)
  obtain w1 where w1: "iterate_queue (max_watching s) (watching_list s ! 0) (Some k) = Inr w1"
    and rest: "iterate_all (max_watching s) w1 (map fst cs) = Inr w'"
    using Cons.prems(3) c by (auto split: sum.splits)
  let ?s1 = "snd (submit_id (Some k) t s)"
  have len: "length (watching_list s) = 1" using Cons.prems(1,2) by (simp add: wf_pool_def)
  have s1: "watching_list ?s1 ! 0 = w1" "max_watching ?s1 = max_watching s" "max_workers ?s1 = 1"
    using w1 len Cons.prems(1,2)
    by (simp_all add: submit_id_wf single_worker_route Let_def)
  have "watching_list (run_calls (map (\<lambda>(k, t). (Some k, t)) cs) ?s1) = [w']"
    using Cons.prems(1) s1 rest by (intro Cons.IH) (simp_all add: submit_id_wf_pool)
  then show ?case using c by simp
qed

text \<open>
  Claim C4: with capacity \<open>m\<close>, \<open>m + 1\<close> distinct keys put one after the other into an
  empty deque leave all of them but the first, in \<open>iterate_queue\<close> alone and in a pool
  of one worker, where every key is routed to that worker. A key that is already in a
  deque within capacity leaves the deque as it is, position included. Whatever the call,
  a key that was in the deque and is no longer there was the oldest one.
\<close>

theorem fifo_eviction:
  "(0 \<le> m \<and> distinct ks \<and> length ks = nat m + 1 \<longrightarrow> iterate_all m [] ks = Inr (tl ks))
   \<and> (0 \<le> m \<and> distinct (map fst cs) \<and> length cs = nat m + 1 \<longrightarrow>
        watching_list (run_calls (map (\<lambda>(k, t). (Some k, t)) (cs :: ('k \<times> 't) list))
                         (init_pool (oq :: 'o option) 1 m))
          = [tl (map fst cs)])
   \<and> (k \<in> set w \<and> int (length w) \<le> m \<longrightarrow> iterate_queue m w (Some k) = Inr w)
   \<and> (iterate_queue m w key = Inr w' \<and> x \<in> set w \<and> x \<notin> set w' \<longrightarrow> x = hd w)"
proof (intro conjI impI)
  assume "0 \<le> m \<and> distinct ks \<and> length ks = nat m + 1"
  then show "iterate_all m [] ks = Inr (tl ks)" by (simp add: iterate_all_overflow)
next
  assume a: "0 \<le> m \<and> distinct (map fst cs) \<and> length cs = nat m + 1"
  let ?s = "init_pool oq 1 m :: ('k, 't, 'o) pool"
  have "iterate_all m [] (map fst cs) = Inr (tl (map fst cs))"
    using a by (intro iterate_all_overflow) simp_all
  then have "iterate_all (max_watching ?s) (watching_list ?s ! 0) (map fst cs) = Inr (tl (map fst cs))"
    by (simp add: init_pool_def)
  moreover have "wf_pool ?s" "max_workers ?s = 1" by (simp_all add: init_pool_def wf_pool_def)
  ultimately show "watching_list (run_calls (map (\<lambda>(k, t). (Some k, t)) cs) ?s) = [tl (map fst cs)]"
    by (intro single_worker_run)
next
  assume "k \<in> set w \<and> int (length w) \<le> m"
  then show "iterate_queue m w (Some k) = Inr w" by (simp add: iterate_queue_resident)
next
  assume "iterate_queue m w key = Inr w' \<and> x \<in> set w \<and> x \<notin> set w'"
  then show "x = hd w" using iterate_queue_evicts_head by metis
qed

text \<open>Claim C4 at capacity two with the keys \<open>1\<close>, \<open>2\<close>, \<open>3\<close>.\<close>

theorem fifo_eviction_witness:
  "iterate_all 2 [] [1::nat, 2, 3] = Inr [2, 3] \<and>
   watching_list (run_calls [(Some (1::nat), ''a''), (Some 2, ''b''), (Some 3, ''c'')]
                    (init_pool (None::unit option) 1 2)) = [[2, 3]] \<and>
   iterate_queue 2 [1::nat, 2] (Some 1) = Inr [1, 2] \<and>
   iterate_queue 2 [1::nat, 2] (Some 3) = Inr [2, 3] \<and>
   (1::nat) = hd [1, 2]"
  using fifo_eviction[where m = 2 and ks = "[1::nat, 2, 3]"
      and cs = "[(1::nat, ''a''), (2, ''b''), (3, ''c'')]" and oq = "None::unit option"
      and k = "1::nat" and w = "[1::nat, 2]" and key = "Some (3::nat)" and w' = "[2::nat, 3]"
      and x = "1::nat"]
  by (simp add: iterate_queue_def)

subsection \<open>Round robin\<close>







text \<open>
  A \<open>submit\<close> call raises \<open>TypeError\<close> and leaves the pool as it was, or it is the call
  of \<open>submit_id\<close> with the key \<open>None\<close>; it is the latter when its task has no named
  argument \<open>key\<close>, and so for a sequence of such calls.
\<close>

lemma submit_TypeError_or_submit_id:
  "submit f args kwargs s = (Some TypeError, s) \<or>
   submit f args kwargs s = submit_id None (f, args, kwargs) s"
  by (simp add: submit_def)





subsection \<open>Key affinity\<close>

lemma run_calls_append: "run_calls (xs @ ys) s = run_calls ys (run_calls xs s)"
  by (induction xs arbitrary: s) auto

lemma run_calls_take_Suc:
  assumes "n < length cs"
  shows "run_calls (take (Suc n) cs) s =
         snd (submit_id (fst (cs ! n)) (snd (cs ! n)) (run_calls (take n cs) s))"
proof -
  have "take (Suc n) cs = take n cs @ [(fst (cs ! n), snd (cs ! n))]"
    using assms by (simp add: take_Suc_conv_app_nth)
  then show ?thesis by (simp only: run_calls_append run_calls.simps)
qed

lemma exclusive_holder:
  assumes "distinct (concat wl)" "w < length wl" "k \<in> set (wl ! w)"
  shows "holder k wl = Some w"
proof -
  have "keys_exclusive wl" using assms(1) by (rule distinct_concat_exclusive)
  then have "\<forall>j < length wl. j \<noteq> w \<longrightarrow> k \<notin> set (wl ! j)"
    using assms(2,3) unfolding keys_exclusive_def by blast
  then show ?thesis using assms(2,3) by (intro holder_unique)
qed

lemma resident_nth:
  "resident k s \<longleftrightarrow> (\<exists>j < length (watching_list s). k \<in> set (watching_list s ! j))"
proof
  assume "resident k s"
  then obtain x where x: "x \<in> set (watching_list s)" "k \<in> set x"
    by (auto simp: resident_def)
  then obtain j where "j < length (watching_list s)" "watching_list s ! j = x"
    by (auto simp: in_set_conv_nth)
  then show "\<exists>j < length (watching_list s). k \<in> set (watching_list s ! j)"
    using x(2) by blast
next
  assume "\<exists>j < length (watching_list s). k \<in> set (watching_list s ! j)"
  then obtain j where "j < length (watching_list s)" "k \<in> set (watching_list s ! j)" by blast
  then show "resident k s"
    unfolding resident_def set_concat using nth_mem by blast
qed

text \<open>After a call that leaves the key resident, the key is with the worker the
  call for that key would have been routed to.\<close>

lemma key_stays:
  assumes inv: "pool_inv s"
    and res: "resident k (snd (submit_id key t s))"
    and at: "(w < length (watching_list s) \<and> k \<in> set (watching_list s ! w)) \<or>
             (key = Some k \<and> w = route s (Some k))"
  shows "w < length (watching_list (snd (submit_id key t s))) \<and>
         k \<in> set (watching_list (snd (submit_id key t s)) ! w)"
proof -
  let ?wl = "watching_list s" and ?r = "route s key"
  have wf: "wf_pool s" and d: "distinct (concat ?wl)" and m: "0 \<le> max_watching s"
    using inv by (simp_all add: pool_inv_def)
  have len: "length ?wl = nat (max_workers s)" using wf by (simp add: wf_pool_def)
  have r: "?r < length ?wl" using route_lt[OF wf, of key] len by simp
  obtain w' where w': "iterate_queue (max_watching s) (?wl ! ?r) key = Inr w'"
    using iterate_queue_total[OF m] by blast
  have wl': "watching_list (snd (submit_id key t s)) = ?wl[?r := w']"
    using w' by (simp add: submit_id_wf[OF wf] Let_def)
  have wlt: "w < length ?wl"
    using at route_lt[OF wf, of "Some k"] len by auto
  obtain j where j: "j < length ?wl" "k \<in> set (?wl[?r := w'] ! j)"
    using res unfolding resident_nth wl' by auto
  have "j = w"
  proof (cases "k \<in> set (?wl ! j)")
    case True
    then have hj: "holder k ?wl = Some j" using d j(1) by (intro exclusive_holder)
    show ?thesis
    proof (rule disjE[OF at])
      assume "w < length ?wl \<and> k \<in> set (?wl ! w)"
      then have "holder k ?wl = Some w" using d by (intro exclusive_holder) simp_all
      then show ?thesis using hj by simp
    next
      assume "key = Some k \<and> w = route s (Some k)"
      then show ?thesis using hj by (simp add: route_def)
    qed
  next
    case False
    then have jr: "j = ?r" using j by (cases "j = ?r") simp_all
    then have "k \<in> set w'" using j by simp
    then have key: "key = Some k" using iterate_queue_keys[OF w'] False jr by auto
    show ?thesis
    proof (rule disjE[OF at])
      assume "w < length ?wl \<and> k \<in> set (?wl ! w)"
      then have "holder k ?wl = Some w" using d by (intro exclusive_holder) simp_all
      then show ?thesis using jr key by (simp add: route_def)
    next
      assume "key = Some k \<and> w = route s (Some k)"
      then show ?thesis using jr by simp
    qed
  qed
  then show ?thesis using j wlt unfolding wl' by simp
qed

text \<open>A call with a key goes to the worker \<open>route\<close> gives and appends to its queue.\<close>

lemma submit_id_queue:
  assumes "pool_inv s"
  shows "queue_list (snd (submit_id key t s)) ! route s key = queue_list s ! route s key @ [t]"
proof -
  have wf: "wf_pool s" and m: "0 \<le> max_watching s" using assms by (simp_all add: pool_inv_def)
  have len: "length (queue_list s) = nat (max_workers s)" using wf by (simp add: wf_pool_def)
  obtain w' where "iterate_queue (max_watching s) (watching_list s ! route s key) key = Inr w'"
    using iterate_queue_total[OF m] by blast
  then show ?thesis using route_lt[OF wf, of key] len
    by (simp add: submit_id_wf[OF wf] Let_def)
qed

lemma submit_id_queue_prefix:
  "i < length (queue_list s) \<Longrightarrow>
   prefix (queue_list s ! i) (queue_list (snd (submit_id key t s)) ! i)"
  using submit_id_cases[of key t s]
  by (auto simp: nth_list_update dest: norm_index_lt)

lemma run_calls_queue_prefix:
  "i < length (queue_list s) \<Longrightarrow> prefix (queue_list s ! i) (queue_list (run_calls cs s) ! i)"
proof (induction cs arbitrary: s)
  case Nil
  then show ?case by simp
next
  case (Cons c cs)
  obtain key t where c: "c = (key, t)" by (cases c)
  let ?s1 = "snd (submit_id key t s)"
  have "i < length (queue_list ?s1)" using Cons.prems submit_id_frame[of key t s] by simp
  then have "prefix (queue_list ?s1 ! i) (queue_list (run_calls cs ?s1) ! i)" by (rule Cons.IH)
  then show ?case using submit_id_queue_prefix[OF Cons.prems, of key t] c
    by (auto intro: prefix_order.trans)
qed

lemma run_calls_length_queue: "length (queue_list (run_calls cs s)) = length (queue_list s)"
proof (induction cs arbitrary: s)
  case Nil
  then show ?case by simp
next
  case (Cons c cs)
  obtain key t where c: "c = (key, t)" by (cases c)
  show ?case using Cons.IH[of "snd (submit_id key t s)"] submit_id_frame[of key t s] c by simp
qed

text \<open>
  Claim C6: take a pool that satisfies the invariant of the reachable pools and any
  sequence of calls, with and without keys, whose first call has the key \<open>k\<close>. If \<open>k\<close>
  is in some deque between any two calls of the sequence (it is never evicted), there is
  one worker such that every call with the key \<open>k\<close> appends its task to that worker's
  queue; that queue only grows at its end, so the tasks are on it in submission order.
\<close>

theorem key_affinity:
  assumes inv: "pool_inv s"
    and first: "cs \<noteq> []" "fst (hd cs) = Some k"
    and res: "\<forall>n. 1 \<le> n \<and> n < length cs \<longrightarrow> resident k (run_calls (take n cs) s)"
  shows "\<exists>w < nat (max_workers s).
           (\<forall>n < length cs. fst (cs ! n) = Some k \<longrightarrow>
              queue_list (run_calls (take (Suc n) cs) s) ! w =
              queue_list (run_calls (take n cs) s) ! w @ [snd (cs ! n)]) \<and>
           (\<forall>n \<le> length cs.
              prefix (queue_list (run_calls (take n cs) s) ! w) (queue_list (run_calls cs s) ! w))"
proof -
  let ?S = "\<lambda>n. run_calls (take n cs) s"
  let ?w = "route s (Some k)"
  have wf: "wf_pool s" using inv by (simp add: pool_inv_def)
  have wlt: "?w < nat (max_workers s)" using wf by (rule route_lt)
  have invS: "pool_inv (?S n)" for n using inv by (rule run_calls_pool_inv)
  have k0: "fst (cs ! 0) = Some k" using first by (simp add: hd_conv_nth)
  have held: "?w < length (watching_list (?S n)) \<and> k \<in> set (watching_list (?S n) ! ?w)"
    if "1 \<le> n" "n < length cs" for n
    using that
  proof (induction n)
    case 0
    then show ?case by simp
  next
    case (Suc n)
    then have n: "n < length cs" by simp
    have step: "?S (Suc n) = snd (submit_id (fst (cs ! n)) (snd (cs ! n)) (?S n))"
      using n by (rule run_calls_take_Suc)
    have r: "resident k (snd (submit_id (fst (cs ! n)) (snd (cs ! n)) (?S n)))"
      using res Suc.prems step by (metis)
    show ?case
    proof (cases n)
      case 0
      then have "fst (cs ! n) = Some k \<and> ?w = route (?S n) (Some k)" using k0 by simp
      then show ?thesis using key_stays[OF invS[of n] r] step by simp
    next
      case (Suc n')
      then have "?w < length (watching_list (?S n)) \<and> k \<in> set (watching_list (?S n) ! ?w)"
        using Suc.IH n by simp
      then show ?thesis using key_stays[OF invS[of n] r] step by simp
    qed
  qed
  have app: "queue_list (?S (Suc n)) ! ?w = queue_list (?S n) ! ?w @ [snd (cs ! n)]"
    if "n < length cs" "fst (cs ! n) = Some k" for n
  proof -
    have step: "?S (Suc n) = snd (submit_id (Some k) (snd (cs ! n)) (?S n))"
      using run_calls_take_Suc[OF that(1), of s] that(2) by simp
    have "route (?S n) (Some k) = ?w"
    proof (cases n)
      case 0
      then show ?thesis by simp
    next
      case (Suc n')
      then have h: "?w < length (watching_list (?S n))" "k \<in> set (watching_list (?S n) ! ?w)"
        using held[of n] that(1) by simp_all
      have "distinct (concat (watching_list (?S n)))" using invS[of n] by (simp add: pool_inv_def)
      then have "holder k (watching_list (?S n)) = Some ?w" using h by (rule exclusive_holder)
      then show ?thesis by (simp add: route_def)
    qed
    then show ?thesis using submit_id_queue[OF invS[of n], of "Some k" "snd (cs ! n)"] step by simp
  qed
  have pre: "prefix (queue_list (?S n) ! ?w) (queue_list (run_calls cs s) ! ?w)"
    if "n \<le> length cs" for n
  proof -
    have "run_calls cs s = run_calls (drop n cs) (?S n)"
      using run_calls_append[of "take n cs" "drop n cs" s] by simp
    moreover have "?w < length (queue_list (?S n))"
      using wlt wf by (simp add: run_calls_length_queue wf_pool_def)
    ultimately show ?thesis using run_calls_queue_prefix by metis
  qed
  show ?thesis using wlt app pre by blast
qed

text \<open>
  Claim C6 at a fresh pool of two workers with capacity two: two calls with the key \<open>1\<close>,
  a call without a key and a call with the key \<open>2\<close> between them.
\<close>

theorem key_affinity_witness:
  "pool_inv (init_pool (None::unit option) 2 2 :: (nat, string, unit) pool) \<and>
   resident (1::nat) (run_calls (take 3 [(Some (1::nat), ''a''), (None, ''b''), (Some 2, ''c''), (Some 1, ''d'')])
       (init_pool (None::unit option) 2 2)) \<and>
   (\<exists>w < nat (max_workers (init_pool (None::unit option) 2 2 :: (nat, string, unit) pool)).
      (\<forall>n < length [(Some (1::nat), ''a''), (None, ''b''), (Some 2, ''c''), (Some 1, ''d'')].
         fst ([(Some (1::nat), ''a''), (None, ''b''), (Some 2, ''c''), (Some 1, ''d'')] ! n) = Some 1 \<longrightarrow>
         queue_list (run_calls (take (Suc n)
              [(Some (1::nat), ''a''), (None, ''b''), (Some 2, ''c''), (Some 1, ''d'')])
              (init_pool (None::unit option) 2 2)) ! w =
         queue_list (run_calls (take n
              [(Some (1::nat), ''a''), (None, ''b''), (Some 2, ''c''), (Some 1, ''d'')])
              (init_pool (None::unit option) 2 2)) ! w @
         [snd ([(Some (1::nat), ''a''), (None, ''b''), (Some 2, ''c''), (Some 1, ''d'')] ! n)]) \<and>
      (\<forall>n \<le> length [(Some (1::nat), ''a''), (None, ''b''), (Some 2, ''c''), (Some 1, ''d'')].
         prefix (queue_list (run_calls (take n
              [(Some (1::nat), ''a''), (None, ''b''), (Some 2, ''c''), (Some 1, ''d'')])
              (init_pool (None::unit option) 2 2)) ! w)
           (queue_list (run_calls
              [(Some (1::nat), ''a''), (None, ''b''), (Some 2, ''c''), (Some 1, ''d'')]
              (init_pool (None::unit option) 2 2)) ! w)))"
proof -
  let ?cs = "[(Some (1::nat), ''a''), (None, ''b''), (Some 2, ''c''), (Some 1, ''d'')]"
  let ?s = "init_pool (None::unit option) 2 2 :: (nat, string, unit) pool"
  have inv: "pool_inv ?s" by (rule init_pool_inv) simp_all
  have ev: "resident 1 (run_calls (take 1 ?cs) ?s)" "resident 1 (run_calls (take 2 ?cs) ?s)"
    "resident 1 (run_calls (take 3 ?cs) ?s)" "resident 1 (run_calls (take 4 ?cs) ?s)"
    by (simp_all add: resident_def init_pool_def submit_id_def norm_index_def iterate_queue_def
        choose_worker_def upt_rec numeral_2_eq_2 numeral_3_eq_3)
  have res: "\<forall>n. 1 \<le> n \<and> n < length ?cs \<longrightarrow> resident 1 (run_calls (take n ?cs) ?s)"
  proof (intro allI impI)
    fix n :: nat
    assume "1 \<le> n \<and> n < length ?cs"
    then have "n = 1 \<or> n = 2 \<or> n = 3" by auto
    then show "resident 1 (run_calls (take n ?cs) ?s)" using ev by auto
  qed
  show ?thesis
    using key_affinity[of ?s ?cs 1, OF inv _ _ res] inv ev(3) by simp
qed

section \<open>Properties of the worker loop\<close>

text \<open>The equation of \<open>run\<close> is applied one iteration at a time.\<close>

declare run.simps [simp del]

lemma run_empty: "queue th = [] \<Longrightarrow> run call th = (Blocked_in_get, th)"
  by (subst run.simps) simp

lemma run_raises: "queue th = t # rest \<Longrightarrow> call t = Inl e \<Longrightarrow>
  run call th = (Task_raised e, th\<lparr>queue := rest\<rparr>)"
  by (subst run.simps) (simp add: Let_def)

lemma run_returns:
  "queue th = t # rest \<Longrightarrow> call t = Inr r \<Longrightarrow> 0 < unfinished_tasks th \<Longrightarrow>
   run call th =
     run call (th\<lparr>queue := rest,
                  out_queue_thread := map_option (\<lambda>out. out @ [r]) (out_queue_thread th),
                  unfinished_tasks := unfinished_tasks th - 1\<rparr>)"
  by (subst run.simps, cases th, cases "out_queue_thread th") (simp_all add: Let_def)

text \<open>
  Claim C9: when the tasks before \<open>t\<close> in the queue return and the callable of \<open>t\<close>
  raises \<open>e\<close>, \<open>run\<close> ends with \<open>e\<close> leaving the loop, which ends the thread. The
  output queue holds the results of the tasks before \<open>t\<close> and nothing for \<open>t\<close>;
  \<open>task_done\<close> has been called once for each task before \<open>t\<close> and not for \<open>t\<close>; the
  tasks behind \<open>t\<close> stay in the queue.
\<close>

theorem run_task_raises:
  assumes "queue th = pre @ t # post"
    and "\<forall>p \<in> set pre. \<exists>r. call p = Inr r"
    and "call t = Inl e"
    and "length pre \<le> unfinished_tasks th"
  shows "run call th =
     (Task_raised e,
      th\<lparr>queue := post,
         out_queue_thread :=
           map_option (\<lambda>out. out @ map (\<lambda>p. projr (call p)) pre) (out_queue_thread th),
         unfinished_tasks := unfinished_tasks th - length pre\<rparr>)"
  using assms
proof (induction pre arbitrary: th)
  case Nil
  then show ?case by (cases "out_queue_thread th") (simp_all add: run_raises)
next
  case (Cons p pre)
  obtain r where r: "call p = Inr r" using Cons.prems(2) by auto
  let ?th1 = "th\<lparr>queue := pre @ t # post,
                  out_queue_thread := map_option (\<lambda>out. out @ [r]) (out_queue_thread th),
                  unfinished_tasks := unfinished_tasks th - 1\<rparr>"
  have "run call th = run call ?th1"
    using Cons.prems(1,4) r by (intro run_returns) simp_all
  also have "run call ?th1 =
     (Task_raised e,
      ?th1\<lparr>queue := post,
         out_queue_thread :=
           map_option (\<lambda>out. out @ map (\<lambda>p. projr (call p)) pre) (out_queue_thread ?th1),
         unfinished_tasks := unfinished_tasks ?th1 - length pre\<rparr>)"
    using Cons.prems by (intro Cons.IH) simp_all
  finally show ?case using r by (cases "out_queue_thread th") simp_all
qed

text \<open>Claim C9 at a queue of three tasks whose second raises.\<close>

theorem run_task_raises_witness:
  "run (\<lambda>t::nat. if t = 2 then Inl ''boom'' else Inr (t * 10))
       \<lparr>queue = [1, 2, 3], unfinished_tasks = 3, out_queue_thread = Some []\<rparr>
   = (Task_raised ''boom'',
      \<lparr>queue = [3], unfinished_tasks = 2, out_queue_thread = Some [10]\<rparr>)"
  using run_task_raises[of
      "\<lparr>queue = [1, 2, 3], unfinished_tasks = 3, out_queue_thread = Some []\<rparr>"
      "[1]" 2 "[3]" "\<lambda>t::nat. if t = 2 then Inl ''boom'' else Inr (t * 10)" "''boom''"]
  by simp

section \<open>Properties of the bridge\<close>

lemma main_wrap_Exception:
  "awaitable self x = Inl e \<Longrightarrow> is_Exception e \<Longrightarrow>
   main_wrap self x Pending = (None, Finished (Inl e))"
  by (simp add: main_wrap_def set_exception_def)

lemma main_wrap_BaseException:
  "awaitable self x = Inl e \<Longrightarrow> \<not> is_Exception e \<Longrightarrow>
   main_wrap self x fut = (Some e, fut)"
  by (simp add: main_wrap_def)

lemma main_wrap_result:
  "awaitable self x = Inr v \<Longrightarrow> main_wrap self x Pending = (None, Finished (Inr v))"
  by (simp add: main_wrap_def set_result_def)

lemma main_wrap_stored:
  assumes "\<forall>e. awaitable self x = Inl e \<longrightarrow> is_Exception e"
  shows "main_wrap self x Pending = (None, Finished (awaitable self x))"
proof (cases "awaitable self x")
  case (Inl e)
  then show ?thesis using assms by (simp add: main_wrap_Exception)
next
  case (Inr v)
  then show ?thesis by (simp add: main_wrap_result)
qed

text \<open>
  Claim C7: called in a thread whose event loop is running, \<open>AsyncToSync.__call__\<close>
  raises the \<open>RuntimeError\<close> of the guard and has done nothing else: no \<open>Future\<close> was
  created, nothing was handed to a loop, no loop was made, nothing was waited for.
\<close>

theorem reentrancy_guard:
  assumes "thread_loop ev = Some l" and "l \<in> set (running ev)"
  shows "AsyncToSync_call self ev x =
         \<lparr> outcome = Some (Inl RuntimeError_same_thread), trace = [], cell = None \<rparr>"
  using assms by (simp add: AsyncToSync_call_def)

text \<open>Claim C7 in the thread of the running main loop \<open>7\<close>.\<close>

theorem reentrancy_guard_witness:
  "AsyncToSync_call
     \<lparr>awaitable = (\<lambda>x::nat. Inr (x + 1) :: string exc + nat), uvloop = False,
      main_event_loop = Some 7\<rparr>
     \<lparr>thread_loop = Some 7, running = [7], has_shutdown_asyncgens = True\<rparr> 5
   = \<lparr> outcome = Some (Inl RuntimeError_same_thread), trace = [], cell = None \<rparr>"
  using reentrancy_guard[of
     "\<lparr>thread_loop = Some 7, running = [7], has_shutdown_asyncgens = True\<rparr>" 7
     "\<lparr>awaitable = (\<lambda>x::nat. Inr (x + 1) :: string exc + nat), uvloop = False,
      main_event_loop = Some 7\<rparr>" 5]
  by simp

text \<open>
  What the bridge gets right, on both paths: a value returned by the awaitable, or an
  instance of \<open>Exception\<close> raised by it, comes back to a caller whose own loop is not
  running, and the \<open>Future\<close> of the call holds it. On the running main loop this takes
  that loop to run the task handed to it, as \<open>AsyncToSync_call\<close> has it.
\<close>

lemma round_trip_value_or_Exception:
  assumes "\<forall>l. thread_loop ev = Some l \<longrightarrow> l \<notin> set (running ev)"
    and "\<forall>e. awaitable self x = Inl e \<longrightarrow> is_Exception e"
  shows "outcome (AsyncToSync_call self ev x) = Some (awaitable self x) \<and>
         cell (AsyncToSync_call self ev x) = Some (Finished (awaitable self x))"
proof -
  have g: "\<not> (case thread_loop ev of None \<Rightarrow> False | Some l \<Rightarrow> l \<in> set (running ev))"
    using assms(1) by (simp split: option.splits)
  have w: "main_wrap self x Pending = (None, Finished (awaitable self x))"
    using assms(2) by (rule main_wrap_stored)
  show ?thesis
    using g by (simp add: AsyncToSync_call_def w future_result_def Let_def)
qed

text \<open>
  An exception that is not an instance of \<open>Exception\<close> passes the \<open>except Exception\<close> of
  \<open>main_wrap\<close>: the \<open>Future\<close> of the call is never set. The private loop still raises
  the exception in the caller; on the running main loop nothing comes back.
\<close>

lemma base_exception_not_stored:
  assumes "\<forall>l. thread_loop ev = Some l \<longrightarrow> l \<notin> set (running ev)"
    and "awaitable self x = Inl e" and "\<not> is_Exception e"
  shows "cell (AsyncToSync_call self ev x) = Some Pending \<and>
         outcome (AsyncToSync_call self ev x) =
           (if (case main_event_loop self of None \<Rightarrow> False | Some l \<Rightarrow> l \<in> set (running ev))
            then None else Some (Inl e))"
proof -
  have g: "\<not> (case thread_loop ev of None \<Rightarrow> False | Some l \<Rightarrow> l \<in> set (running ev))"
    using assms(1) by (simp split: option.splits)
  have w: "main_wrap self x Pending = (Some e, Pending)"
    using assms(2,3) by (rule main_wrap_BaseException)
  show ?thesis
    using g by (simp add: AsyncToSync_call_def w future_result_def Let_def)
qed

text \<open>
  Claim C8 says that an exception raised by the awaitable is raised again in the
  synchronous caller, never swallowed, and that the \<open>Future\<close> of the call holds the
  value or the cause. The code does not do so for an awaitable that raises \<open>SystemExit\<close>,
  which is not an instance of \<open>Exception\<close>. With the main loop \<open>7\<close> running in another
  thread, the call hands \<open>main_wrap\<close> to that loop and waits on a \<open>Future\<close> that is
  never set: the caller blocks for ever, even though the loop runs the task. On the
  private loop the exception does reach the caller, and the \<open>Future\<close> still holds
  neither a value nor a cause.
\<close>

theorem bridge_base_exception_blocks:
  "AsyncToSync_call
     \<lparr>awaitable = (\<lambda>x::nat. Inl (BaseException ''SystemExit'') :: string exc + nat),
      uvloop = False, main_event_loop = Some 7\<rparr>
     \<lparr>thread_loop = None, running = [7], has_shutdown_asyncgens = True\<rparr> 5
   = \<lparr> outcome = None,
       trace = [Create_Future, Call_soon_threadsafe_create_task 7, Wait_for_result],
       cell = Some Pending \<rparr>
   \<and> AsyncToSync_call
     \<lparr>awaitable = (\<lambda>x::nat. Inl (BaseException ''SystemExit'') :: string exc + nat),
      uvloop = False, main_event_loop = None\<rparr>
     \<lparr>thread_loop = None, running = [], has_shutdown_asyncgens = True\<rparr> 5
   = \<lparr> outcome = Some (Inl (BaseException ''SystemExit'')),
       trace = [Create_Future, New_event_loop False, Set_event_loop_private,
                Run_until_complete_main_wrap, Run_until_complete_shutdown_asyncgens,
                Close_private_loop, Set_event_loop_main None],
       cell = Some Pending \<rparr>"
  by (simp add: AsyncToSync_call_def main_wrap_def future_result_def)

end
